theory Spec2Isabelle
  imports Complex_Main "HOL-Library.Multiset"
begin

section \<open>Peak extraction engine of \<open>core/spectrum/peaks.py\<close>\<close>

text \<open>
  The embedding follows \<open>src/core/spectrum/peaks.py\<close> function by function.
  Samples that the caller passes in are IEEE doubles, which may be non-finite; they are
  the type \<open>float\<close> below. After the finiteness mask of \<open>extract_top_peaks\<close> every
  sample is finite, and from there on the arithmetic of the code is taken over the
  reals: the exact result stands for the rounded one, and no operation overflows. A run
  of the code in which a double operation overflows (the difference of two \<open>x\<close> of
  magnitude \<open>2^1023\<close> is infinite, and zero times infinity is NaN) is outside this
  model. The two totals that the \<open>auto\<close> branch compares are the exception: their
  rounding decides a tie, so their summation is a parameter of the model. Python
  integers are \<open>int\<close>. Every exception the code can raise is a value \<open>Inl e\<close> of
  the result.
\<close>

subsection \<open>Data model\<close>

datatype error = IndexError | ZeroDivisionError | ValueError

datatype float = Finite real | PosInf | NegInf | NaN

datatype kind = Kind_max | Kind_min

datatype mode = Mode_auto | Mode_max | Mode_min

record PeakRange =
  kind :: kind
  left :: real
  center :: real
  right :: real
  prominence :: real

fun isfinite :: "float \<Rightarrow> bool" where
  "isfinite (Finite r) = True"
| "isfinite PosInf = False"
| "isfinite NegInf = False"
| "isfinite NaN = False"

text \<open>Unary minus on doubles, as \<open>-y_arr\<close> applies it to each sample.\<close>

fun fneg :: "float \<Rightarrow> float" where
  "fneg (Finite r) = Finite (- r)"
| "fneg PosInf = NegInf"
| "fneg NegInf = PosInf"
| "fneg NaN = NaN"

text \<open>The real value of a finite sample; only applied to samples that passed the mask.\<close>

fun finite_value :: "float \<Rightarrow> real" where
  "finite_value (Finite r) = r"
| "finite_value PosInf = 0"
| "finite_value NegInf = 0"
| "finite_value NaN = 0"

subsection \<open>Array primitives of NumPy\<close>

text \<open>
  \<open>s[i]\<close> for an integer \<open>i\<close>: a negative index counts from the end, and an index
  outside \<open>-n \<dots> n-1\<close> raises \<open>IndexError\<close>.
\<close>

definition item :: "'a list \<Rightarrow> int \<Rightarrow> error + 'a" where
  "item s i =
     (if 0 \<le> i \<and> i < int (length s) then Inr (s ! nat i)
      else if i < 0 \<and> - int (length s) \<le> i then Inr (s ! nat (int (length s) + i))
      else Inl IndexError)"

text \<open>\<open>arr[mask]\<close> for a boolean mask of the same length.\<close>

definition compress :: "bool list \<Rightarrow> 'a list \<Rightarrow> 'a list" where
  "compress msk arr = map snd (filter fst (zip msk arr))"

text \<open>\<open>np.nonzero(mask)[0]\<close>: the positions of the true entries, ascending.\<close>

definition nonzero :: "bool list \<Rightarrow> nat list" where
  "nonzero msk = filter (\<lambda>k. msk ! k) [0..<length msk]"

text \<open>
  \<open>np.convolve(a, v, mode="same")\<close>, from NumPy's documented behaviour: the full discrete
  convolution has length \<open>len a + len v - 1\<close>, with entry
  \<open>k\<close> the sum of \<open>a[j] * v[k - j]\<close> over the \<open>j\<close> where both indices exist; mode
  \<open>same\<close> keeps the \<open>max (len a) (len v)\<close> central entries; the arguments are
  swapped when \<open>v\<close> is the longer one, and an empty argument raises \<open>ValueError\<close>.
\<close>

definition convolve_full :: "real list \<Rightarrow> real list \<Rightarrow> real list" where
  "convolve_full a v =
     map (\<lambda>k. sum_list (map (\<lambda>j. if j \<le> k \<and> k - j < length v then a ! j * v ! (k - j) else 0)
                              [0..<length a]))
         [0..<length a + length v - 1]"

definition convolve_same :: "real list \<Rightarrow> real list \<Rightarrow> error + real list" where
  "convolve_same a v =
     (if a = [] \<or> v = [] then Inl ValueError
      else if length a < length v
        then Inr (take (length v) (drop ((length a - 1) div 2) (convolve_full v a)))
        else Inr (take (length a) (drop ((length v - 1) div 2) (convolve_full a v))))"

subsection \<open>Smoother\<close>

definition smooth :: "real list \<Rightarrow> int \<Rightarrow> error + real list" where
  "smooth y window =
     (if window \<le> 1 then Inr y
      else let w = (if window mod 2 = 0 then window + 1 else window)
           in if int (length y) < w then Inr y
              else convolve_same y (replicate (nat w) (1 / real_of_int w)))"

subsection \<open>Local-extremum finder\<close>

definition local_maxima_indices :: "real list \<Rightarrow> int list" where
  "local_maxima_indices s =
     (if length s < 3 then []
      else let left = butlast (butlast s);
               mid = butlast (tl s);
               right = drop 2 s;
               msk = map (\<lambda>(l, m, r). m \<ge> l \<and> m \<ge> r \<and> (m > l \<or> m > r))
                          (zip left (zip mid right))
           in map (\<lambda>k. int k + 1) (nonzero msk))"

subsection \<open>Flanking minima\<close>

text \<open>
  The loop condition \<open>s[j] <= s[j - 1] and s[j] <= s[j + 1]\<close>; \<open>and\<close> evaluates its
  second operand only when the first holds.
\<close>

definition is_local_min :: "real list \<Rightarrow> int \<Rightarrow> error + bool" where
  "is_local_min s j =
     (case item s j of
        Inl e \<Rightarrow> Inl e
      | Inr a \<Rightarrow>
         (case item s (j - 1) of
            Inl e \<Rightarrow> Inl e
          | Inr b \<Rightarrow>
             (if a \<le> b
              then (case item s (j + 1) of Inl e \<Rightarrow> Inl e | Inr c \<Rightarrow> Inr (a \<le> c))
              else Inr False)))"

function left_walk :: "real list \<Rightarrow> int \<Rightarrow> error + int" where
  "left_walk s j =
     (if j > 0
      then (case is_local_min s j of
              Inl e \<Rightarrow> Inl e
            | Inr b \<Rightarrow> if b then Inr j else left_walk s (j - 1))
      else Inr 0)"
  by pat_completeness auto
termination
  by (relation "measure (\<lambda>(s, j). nat j)") auto

declare left_walk.simps [simp del]

definition nearest_local_min_left :: "real list \<Rightarrow> int \<Rightarrow> error + int" where
  "nearest_local_min_left s i = left_walk s (i - 1)"

function right_walk :: "real list \<Rightarrow> int \<Rightarrow> int \<Rightarrow> error + int" where
  "right_walk s n j =
     (if j < n - 1
      then (case is_local_min s j of
              Inl e \<Rightarrow> Inl e
            | Inr b \<Rightarrow> if b then Inr j else right_walk s n (j + 1))
      else Inr (n - 1))"
  by pat_completeness auto
termination
  by (relation "measure (\<lambda>(s, n, j). nat (n - 1 - j))") auto

declare right_walk.simps [simp del]

definition nearest_local_min_right :: "real list \<Rightarrow> int \<Rightarrow> error + int" where
  "nearest_local_min_right s i = right_walk s (int (length s)) (i + 1)"

subsection \<open>Half-prominence width\<close>

definition interp_x_at_level ::
    "real list \<Rightarrow> real list \<Rightarrow> int \<Rightarrow> int \<Rightarrow> real \<Rightarrow> error + real" where
  "interp_x_at_level x s i0 i1 level =
     (case item x i0 of
        Inl e \<Rightarrow> Inl e
      | Inr x0 \<Rightarrow>
         (case item x i1 of
            Inl e \<Rightarrow> Inl e
          | Inr x1 \<Rightarrow>
             (case item s i0 of
                Inl e \<Rightarrow> Inl e
              | Inr y0 \<Rightarrow>
                 (case item s i1 of
                    Inl e \<Rightarrow> Inl e
                  | Inr y1 \<Rightarrow>
                     (if y0 = y1 then Inr x0
                      else if y1 - y0 = 0 then Inl ZeroDivisionError
                      else Inr (x0 + (level - y0) / (y1 - y0) * (x1 - x0)))))))"

text \<open>The loop \<open>while li > left_min_i and s[li] > level: li -= 1\<close>.\<close>

function left_scan :: "real list \<Rightarrow> int \<Rightarrow> real \<Rightarrow> int \<Rightarrow> error + int" where
  "left_scan s left_min_i level li =
     (if li > left_min_i
      then (case item s li of
              Inl e \<Rightarrow> Inl e
            | Inr v \<Rightarrow> if v > level then left_scan s left_min_i level (li - 1) else Inr li)
      else Inr li)"
  by pat_completeness auto
termination
  by (relation "measure (\<lambda>(s, left_min_i, level, li). nat (li - left_min_i))") auto

declare left_scan.simps [simp del]

text \<open>The loop \<open>while ri < right_min_i and s[ri] > level: ri += 1\<close>.\<close>

function right_scan :: "real list \<Rightarrow> int \<Rightarrow> real \<Rightarrow> int \<Rightarrow> error + int" where
  "right_scan s right_min_i level ri =
     (if ri < right_min_i
      then (case item s ri of
              Inl e \<Rightarrow> Inl e
            | Inr v \<Rightarrow> if v > level then right_scan s right_min_i level (ri + 1) else Inr ri)
      else Inr ri)"
  by pat_completeness auto
termination
  by (relation "measure (\<lambda>(s, right_min_i, level, ri). nat (right_min_i - ri))") auto

declare right_scan.simps [simp del]

definition half_prominence_width ::
    "real list \<Rightarrow> real list \<Rightarrow> int \<Rightarrow> int \<Rightarrow> int \<Rightarrow> real \<Rightarrow> real \<Rightarrow> error + real \<times> real" where
  "half_prominence_width x s peak_i left_min_i right_min_i baseline prom =
     (let level = baseline + 0.5 * prom in
      case left_scan s left_min_i level peak_i of
        Inl e \<Rightarrow> Inl e
      | Inr li \<Rightarrow>
         (case (if li = peak_i then item x peak_i
                else interp_x_at_level x s li (li + 1) level) of
            Inl e \<Rightarrow> Inl e
          | Inr left_x \<Rightarrow>
             (case right_scan s right_min_i level peak_i of
                Inl e \<Rightarrow> Inl e
              | Inr ri \<Rightarrow>
                 (case (if ri = peak_i then item x peak_i
                        else interp_x_at_level x s (ri - 1) ri level) of
                    Inl e \<Rightarrow> Inl e
                  | Inr right_x \<Rightarrow> Inr (left_x, right_x)))))"

subsection \<open>Candidates, ranking and selection\<close>

text \<open>
  One pass of the loop over \<open>peak_indices\<close>: \<open>None\<close> is the \<open>continue\<close> of a
  discarded candidate, \<open>Some\<close> the pair that is appended to \<open>candidates\<close>.
\<close>

definition peak_candidate ::
    "real list \<Rightarrow> real list \<Rightarrow> real \<Rightarrow> kind \<Rightarrow> int \<Rightarrow> error + (real \<times> PeakRange) option" where
  "peak_candidate x ss min_prominence knd peak_i =
     (case nearest_local_min_left ss peak_i of
        Inl e \<Rightarrow> Inl e
      | Inr left_min_i \<Rightarrow>
         (case nearest_local_min_right ss peak_i of
            Inl e \<Rightarrow> Inl e
          | Inr right_min_i \<Rightarrow>
             (case item ss left_min_i of
                Inl e \<Rightarrow> Inl e
              | Inr vl \<Rightarrow>
                 (case item ss right_min_i of
                    Inl e \<Rightarrow> Inl e
                  | Inr vr \<Rightarrow>
                     (case item ss peak_i of
                        Inl e \<Rightarrow> Inl e
                      | Inr vp \<Rightarrow>
                         (let baseline = max vl vr; prom = vp - baseline in
                          if prom \<le> 0 \<or> prom < min_prominence then Inr None
                          else
                            (case half_prominence_width x ss peak_i left_min_i right_min_i
                                    baseline prom of
                               Inl e \<Rightarrow> Inl e
                             | Inr (left_x, right_x) \<Rightarrow>
                                (case item x peak_i of
                                   Inl e \<Rightarrow> Inl e
                                 | Inr c \<Rightarrow>
                                    Inr (Some (prom,
                                      \<lparr>kind = knd, left = min left_x right_x, center = c,
                                       right = max left_x right_x,
                                       prominence = prom\<rparr>))))))))))"

fun collect_candidates ::
    "real list \<Rightarrow> real list \<Rightarrow> real \<Rightarrow> kind \<Rightarrow> int list \<Rightarrow> error + (real \<times> PeakRange) list" where
  "collect_candidates x ss min_prominence knd [] = Inr []"
| "collect_candidates x ss min_prominence knd (peak_i # rest) =
     (case peak_candidate x ss min_prominence knd peak_i of
        Inl e \<Rightarrow> Inl e
      | Inr c \<Rightarrow>
         (case collect_candidates x ss min_prominence knd rest of
            Inl e \<Rightarrow> Inl e
          | Inr cs \<Rightarrow> Inr (case c of None \<Rightarrow> cs | Some t \<Rightarrow> t # cs)))"

text \<open>
  The last two statements of \<open>_extract_peaks_from_signal\<close>, the ranker and selector.
  \<open>candidates.sort(key=lambda t: t[0], reverse=True)\<close> is Python's stable sort in
  descending key order: \<open>sort_key\<close> is stable and ascending, so the key is negated.
  \<open>candidates[: max(0, int(top_n))]\<close> is \<open>take\<close>.
\<close>

definition rank_and_select :: "(real \<times> PeakRange) list \<Rightarrow> int \<Rightarrow> PeakRange list" where
  "rank_and_select candidates top_n =
     map snd (take (nat (max 0 top_n)) (sort_key (\<lambda>t. - fst t) candidates))"

text \<open>
  \<open>_extract_peaks_from_signal\<close>. \<open>np.isfinite(ss).any()\<close> holds exactly when \<open>ss\<close>
  has a sample (all samples are finite here), and then \<open>np.nanmax\<close> and \<open>np.nanmin\<close>
  are the greatest and the least sample.
\<close>

definition extract_peaks_from_signal ::
    "real list \<Rightarrow> real list \<Rightarrow> int \<Rightarrow> int \<Rightarrow> real \<Rightarrow> kind \<Rightarrow> error + PeakRange list" where
  "extract_peaks_from_signal x s top_n smooth_window min_prominence_ratio knd =
     (case smooth s smooth_window of
        Inl e \<Rightarrow> Inl e
      | Inr ss \<Rightarrow>
         (let peak_indices = local_maxima_indices ss in
          if peak_indices = [] then Inr []
          else
            let global_span = (if ss \<noteq> [] then Max (set ss) - Min (set ss) else 0);
                min_prominence =
                  (if global_span > 0 then global_span * min_prominence_ratio else 0)
            in case collect_candidates x ss min_prominence knd peak_indices of
                 Inl e \<Rightarrow> Inl e
               | Inr candidates \<Rightarrow> Inr (rank_and_select candidates top_n)))"

subsection \<open>Orchestration\<close>

text \<open>
  The comparison \<open>>\<close> of two doubles: false when either is NaN, and the infinities are
  the ends of the order.
\<close>

fun fgt :: "float \<Rightarrow> float \<Rightarrow> bool" where
  "fgt NaN b = False"
| "fgt a NaN = False"
| "fgt (Finite a) (Finite b) = (b < a)"
| "fgt (Finite a) PosInf = False"
| "fgt (Finite a) NegInf = True"
| "fgt PosInf PosInf = False"
| "fgt PosInf b = True"
| "fgt NegInf b = False"

text \<open>
  \<open>extract_top_peaks\<close>, with the keyword arguments in the order of the signature. The
  two arrays are flat sequences of doubles; \<open>msk\<close> is
  \<open>np.isfinite(x_arr) & np.isfinite(y_arr)\<close>, and the samples it keeps are finite, so
  they are read as reals from there on. A mode other than \<open>max\<close> and \<open>min\<close> is the
  \<open>auto\<close> branch.

  In the \<open>auto\<close> branch \<open>float(sum(p.prominence for p in peaks))\<close> adds the
  prominences from left to right in double precision, every addition rounded, and the
  two totals are compared as doubles. The rounding is not computed here: the first
  argument \<open>float_sum\<close> stands for that summation, whatever double it yields, and
  what is proved of the \<open>auto\<close> branch is proved for every \<open>float_sum\<close>.
\<close>

definition extract_top_peaks_scored ::
    "(real list \<Rightarrow> float) \<Rightarrow> float list \<Rightarrow> float list \<Rightarrow> int \<Rightarrow> mode \<Rightarrow> int \<Rightarrow> real
       \<Rightarrow> error + PeakRange list" where
  "extract_top_peaks_scored float_sum x y top_n md smooth_window min_prominence_ratio =
     (if length x \<noteq> length y \<or> length x < 3 then Inr []
      else
        let msk = map (\<lambda>(a, b). isfinite a \<and> isfinite b) (zip x y);
            x_arr = map finite_value (compress msk x);
            y_arr = map finite_value (compress msk y)
        in if length x_arr < 3 then Inr []
           else if md = Mode_max
             then extract_peaks_from_signal x_arr y_arr top_n smooth_window
                    min_prominence_ratio Kind_max
           else if md = Mode_min
             then extract_peaks_from_signal x_arr (map uminus y_arr) top_n smooth_window
                    min_prominence_ratio Kind_min
           else
             (case extract_peaks_from_signal x_arr y_arr top_n smooth_window
                     min_prominence_ratio Kind_max of
                Inl e \<Rightarrow> Inl e
              | Inr peaks_max \<Rightarrow>
                 (case extract_peaks_from_signal x_arr (map uminus y_arr) top_n smooth_window
                         min_prominence_ratio Kind_min of
                    Inl e \<Rightarrow> Inl e
                  | Inr peaks_min \<Rightarrow>
                     (let score_max = float_sum (map prominence peaks_max);
                          score_min = float_sum (map prominence peaks_min)
                      in Inr (if fgt score_min score_max then peaks_min else peaks_max)))))"

text \<open>
  \<open>extract_top_peaks\<close> with the two totals taken exactly, as the rest of the arithmetic
  is: the instance the statements about single calls are evaluated on.
\<close>

definition extract_top_peaks ::
    "float list \<Rightarrow> float list \<Rightarrow> int \<Rightarrow> mode \<Rightarrow> int \<Rightarrow> real \<Rightarrow> error + PeakRange list" where
  "extract_top_peaks x y top_n md smooth_window min_prominence_ratio =
     extract_top_peaks_scored (\<lambda>vs. Finite (sum_list vs))
       x y top_n md smooth_window min_prominence_ratio"

subsection \<open>The smoother as the specification words it\<close>

text \<open>
  The signal extended by zeros on both sides, and the centred boxcar of width \<open>w\<close>
  (each weight \<open>1 / w\<close>) slid over it: output sample \<open>i\<close> sums the padded samples
  \<open>i - w div 2 \<dots> i + w div 2\<close>, so the output has the length of the input.
\<close>

definition padded :: "real list \<Rightarrow> int \<Rightarrow> real" where
  "padded s j = (if 0 \<le> j \<and> j < int (length s) then s ! nat j else 0)"

definition boxcar_same :: "real list \<Rightarrow> int \<Rightarrow> real list" where
  "boxcar_same s w =
     map (\<lambda>i. sum_list (map (\<lambda>d. padded s (int i + d) * (1 / real_of_int w))
                              [- (w div 2) .. w div 2]))
         [0..<length s]"

section \<open>Verification\<close>

subsection \<open>Indexing\<close>

lemma item_in_range: "0 \<le> i \<Longrightarrow> i < int (length s) \<Longrightarrow> item s i = Inr (s ! nat i)"
  by (simp add: item_def)

lemma is_local_min_in_range:
  assumes "0 < j" "j + 1 < int (length s)"
  shows "is_local_min s j = Inr (s ! nat j \<le> s ! nat (j - 1) \<and> s ! nat j \<le> s ! nat (j + 1))"
  using assms by (simp add: is_local_min_def item_in_range)

subsection \<open>Smoother\<close>

lemma window_sum_reindex:
  fixes s :: "real list" and c :: real
  assumes "i < length s"
  shows "(\<Sum>j = 0..<length s. if j \<le> i + h \<and> i + h - j < 2 * h + 1 then s ! j * c else 0)
       = (\<Sum>d = - int h..int h. padded s (int i + d) * c)"
proof -
  let ?A = "{j \<in> {0..<length s}. j \<le> i + h \<and> i + h - j < 2 * h + 1}"
  let ?B = "{d \<in> {- int h..int h}. 0 \<le> int i + d \<and> int i + d < int (length s)}"
  have "(\<Sum>j = 0..<length s. if j \<le> i + h \<and> i + h - j < 2 * h + 1 then s ! j * c else 0)
        = (\<Sum>j \<in> ?A. s ! j * c)"
    by (rule sum.inter_filter[symmetric]) simp
  also have "\<dots> = (\<Sum>d \<in> ?B. s ! nat (int i + d) * c)"
    by (rule sum.reindex_bij_witness[where i = "\<lambda>d. nat (int i + d)" and j = "\<lambda>j. int j - int i"])
       auto
  also have "\<dots> = (\<Sum>d = - int h..int h.
                     if 0 \<le> int i + d \<and> int i + d < int (length s)
                     then s ! nat (int i + d) * c else 0)"
    by (rule sum.inter_filter) simp
  also have "\<dots> = (\<Sum>d = - int h..int h. padded s (int i + d) * c)"
    by (rule sum.cong) (auto simp: padded_def)
  finally show ?thesis .
qed

lemma convolve_full_nth:
  assumes "k < length a + length v - 1"
  shows "convolve_full a v ! k =
           (\<Sum>j = 0..<length a. if j \<le> k \<and> k - j < length v then a ! j * v ! (k - j) else 0)"
proof -
  have "convolve_full a v ! k =
          sum_list (map (\<lambda>j. if j \<le> k \<and> k - j < length v then a ! j * v ! (k - j) else 0)
                        [0..<length a])"
  proof -
    have k: "[0..<length a + length v - 1] ! k = k"
      using assms by simp
    have "k < length [0..<length a + length v - 1]"
      using assms by simp
    then show ?thesis
      unfolding convolve_full_def by (simp only: nth_map k)
  qed
  then show ?thesis by (simp only: interv_sum_list_conv_sum_set_nat set_upt)
qed

lemma convolve_same_boxcar:
  fixes s :: "real list"
  assumes "2 * h + 1 \<le> length s"
  shows "convolve_same s (replicate (2 * h + 1) c) =
           Inr (map (\<lambda>i. sum_list (map (\<lambda>d. padded s (int i + d) * c) [- int h .. int h]))
                    [0..<length s])"
proof -
  let ?v = "replicate (2 * h + 1) c"
  let ?full = "convolve_full s ?v"
  have ne: "s \<noteq> []" "?v \<noteq> []" "\<not> length s < length ?v" using assms by auto
  have half: "(length ?v - 1) div 2 = h" by simp
  have lenfull: "length ?full = length s + 2 * h" by (simp add: convolve_full_def)
  have "take (length s) (drop h ?full) =
          map (\<lambda>i. sum_list (map (\<lambda>d. padded s (int i + d) * c) [- int h .. int h]))
              [0..<length s]"
  proof (rule nth_equalityI)
    show "length (take (length s) (drop h ?full)) =
          length (map (\<lambda>i. sum_list (map (\<lambda>d. padded s (int i + d) * c) [- int h .. int h]))
              [0..<length s])"
      using lenfull by simp
  next
    fix i assume "i < length (take (length s) (drop h ?full))"
    then have i: "i < length s" by simp
    have "take (length s) (drop h ?full) ! i = ?full ! (h + i)"
      using i lenfull by simp
    also have "\<dots> = (\<Sum>j = 0..<length s.
                        if j \<le> h + i \<and> h + i - j < length ?v then s ! j * ?v ! (h + i - j) else 0)"
      using i by (intro convolve_full_nth) simp
    also have "\<dots> = (\<Sum>j = 0..<length s.
                        if j \<le> i + h \<and> i + h - j < 2 * h + 1 then s ! j * c else 0)"
    proof (rule sum.cong)
      fix j assume "j \<in> {0..<length s}"
      have "h + i - j < 2 * h + 1 \<Longrightarrow> ?v ! (h + i - j) = c"
        by (rule nth_replicate)
      then show "(if j \<le> h + i \<and> h + i - j < length ?v then s ! j * ?v ! (h + i - j) else 0)
               = (if j \<le> i + h \<and> i + h - j < 2 * h + 1 then s ! j * c else 0)"
        by (simp add: add.commute del: replicate.simps replicate_Suc)
    qed simp
    also have "\<dots> = (\<Sum>d = - int h..int h. padded s (int i + d) * c)"
      using i by (rule window_sum_reindex)
    also have "\<dots> = sum_list (map (\<lambda>d. padded s (int i + d) * c) [- int h .. int h])"
      by (simp add: interv_sum_list_conv_sum_set_int)
    finally show "take (length s) (drop h ?full) ! i =
        map (\<lambda>i. sum_list (map (\<lambda>d. padded s (int i + d) * c) [- int h .. int h]))
              [0..<length s] ! i"
      using i by simp
  qed
  then show ?thesis
    unfolding convolve_same_def using ne half by simp
qed

lemma smooth_total_length:
  "\<exists>ss. smooth s window = Inr ss \<and> length ss = length s"
proof (cases "window \<le> 1 \<or> int (length s) < (if window mod 2 = 0 then window + 1 else window)")
  case True
  then show ?thesis by (auto simp: smooth_def Let_def)
next
  case False
  define w where "w = (if window mod 2 = 0 then window + 1 else window)"
  define h where "h = nat (w div 2)"
  have w: "1 < w" "odd w" "w \<le> int (length s)" using False by (auto simp: w_def)
  then have nw: "nat w = 2 * h + 1" unfolding h_def by (auto elim!: oddE)
  have "convolve_same s (replicate (2 * h + 1) (1 / real_of_int w)) =
           Inr (map (\<lambda>i. sum_list (map (\<lambda>d. padded s (int i + d) * (1 / real_of_int w)) [- int h .. int h]))
                    [0..<length s])"
    using w nw by (intro convolve_same_boxcar) linarith
  then show ?thesis using False nw unfolding smooth_def Let_def w_def[symmetric] by simp
qed

text \<open>
  Claim C7. The smoother returns a sequence of the length of its input: the input itself
  when \<open>window \<le> 1\<close>; otherwise the window is made odd (an even one is incremented),
  the input is returned unchanged when it is shorter than that effective window, and
  else every output sample is the centred boxcar convolution of the zero-padded input.
\<close>

theorem smooth_is_boxcar:
  "smooth s window =
     Inr (if window \<le> 1 then s
          else if int (length s) < (if even window then window + 1 else window) then s
          else boxcar_same s (if even window then window + 1 else window))
   \<and> length (boxcar_same s (if even window then window + 1 else window)) = length s"
proof (cases "window \<le> 1 \<or> int (length s) < (if window mod 2 = 0 then window + 1 else window)")
  case True
  then have "smooth s window = Inr s" by (auto simp: smooth_def Let_def)
  moreover have "length (boxcar_same s (if even window then window + 1 else window)) = length s"
    by (simp add: boxcar_same_def)
  ultimately show ?thesis using True by (auto simp: even_iff_mod_2_eq_zero)
next
  case False
  define w where "w = (if window mod 2 = 0 then window + 1 else window)"
  define h where "h = nat (w div 2)"
  have w: "1 < w" "odd w" "w \<le> int (length s)" using False by (auto simp: w_def)
  then have nw: "nat w = 2 * h + 1" unfolding h_def by (auto elim!: oddE)
  have hh: "int h = w div 2" using w unfolding h_def by simp
  have "convolve_same s (replicate (2 * h + 1) (1 / real_of_int w)) =
           Inr (map (\<lambda>i. sum_list (map (\<lambda>d. padded s (int i + d) * (1 / real_of_int w)) [- int h .. int h]))
                    [0..<length s])"
    using w nw by (intro convolve_same_boxcar) linarith
  then have "smooth s window = Inr (boxcar_same s w)"
    using False nw unfolding smooth_def Let_def w_def[symmetric] boxcar_same_def hh by simp
  moreover have eq: "(if even window then window + 1 else window) = w"
    by (simp add: w_def even_iff_mod_2_eq_zero)
  moreover have "\<not> window \<le> 1" "\<not> int (length s) < w"
    using False w_def by auto
  moreover have "length (boxcar_same s w) = length s"
    by (simp add: boxcar_same_def)
  ultimately show ?thesis by simp
qed

subsection \<open>Local-extremum finder\<close>

lemma nonzero_map:
  "nonzero (map f xs) = filter (\<lambda>k. f (xs ! k)) [0..<length xs]"
  by (auto simp: nonzero_def intro: filter_cong)

lemma local_maxima_indices_filter:
  "local_maxima_indices s =
     map (\<lambda>k. int k + 1)
       (filter (\<lambda>k. s ! k \<le> s ! (k + 1) \<and> s ! (k + 2) \<le> s ! (k + 1)
                    \<and> (s ! k < s ! (k + 1) \<or> s ! (k + 2) < s ! (k + 1)))
               [0..<length s - 2])"
proof (cases "length s < 3")
  case True
  then have "length s - 2 = 0 \<or> length s - 2 = 0" by auto
  with True show ?thesis by (auto simp: local_maxima_indices_def filter_empty_conv)
next
  case False
  have len: "length (zip (butlast (butlast s)) (zip (butlast (tl s)) (drop 2 s))) = length s - 2"
    by simp
  have "filter (\<lambda>k. (case zip (butlast (butlast s)) (zip (butlast (tl s)) (drop 2 s)) ! k of
                  (l, m, r) \<Rightarrow> m \<ge> l \<and> m \<ge> r \<and> (m > l \<or> m > r))) [0..<length s - 2]
      = filter (\<lambda>k. s ! k \<le> s ! (k + 1) \<and> s ! (k + 2) \<le> s ! (k + 1)
                    \<and> (s ! k < s ! (k + 1) \<or> s ! (k + 2) < s ! (k + 1))) [0..<length s - 2]"
    by (rule filter_cong) (auto simp: nth_butlast nth_tl add.commute)
  with False show ?thesis
    unfolding local_maxima_indices_def Let_def nonzero_map len by simp
qed

text \<open>
  Claim C8. The local-extremum finder returns, in ascending order and without repetition,
  exactly the indices \<open>i\<close> with \<open>1 \<le> i \<le> n - 2\<close> whose sample is at least both
  neighbours and strictly above one of them; for \<open>n < 3\<close> it returns no index.
\<close>

theorem local_maxima_indices_exact:
  "set (local_maxima_indices s) =
     {i. 1 \<le> i \<and> i \<le> int (length s) - 2
         \<and> s ! nat (i - 1) \<le> s ! nat i \<and> s ! nat (i + 1) \<le> s ! nat i
         \<and> (s ! nat (i - 1) < s ! nat i \<or> s ! nat (i + 1) < s ! nat i)}
   \<and> sorted_wrt (<) (local_maxima_indices s)
   \<and> (length s < 3 \<longrightarrow> local_maxima_indices s = [])"
proof (intro conjI)
  let ?P = "\<lambda>k. s ! k \<le> s ! (k + 1) \<and> s ! (k + 2) \<le> s ! (k + 1)
                    \<and> (s ! k < s ! (k + 1) \<or> s ! (k + 2) < s ! (k + 1))"
  let ?Q = "\<lambda>i. 1 \<le> i \<and> i \<le> int (length s) - 2
         \<and> s ! nat (i - 1) \<le> s ! nat i \<and> s ! nat (i + 1) \<le> s ! nat i
         \<and> (s ! nat (i - 1) < s ! nat i \<or> s ! nat (i + 1) < s ! nat i)"
  show "set (local_maxima_indices s) = {i. ?Q i}"
  proof (intro set_eqI iffI)
    fix i assume "i \<in> set (local_maxima_indices s)"
    then obtain k where k: "i = int k + 1" "k < length s - 2" "?P k"
      unfolding local_maxima_indices_filter by auto
    have "nat (int k + 1 - 1) = k" "nat (int k + 1) = k + 1" "nat (int k + 1 + 1) = k + 2"
      by auto
    with k show "i \<in> {i. ?Q i}" by auto
  next
    fix i assume "i \<in> {i. ?Q i}"
    then have q: "?Q i" by simp
    define k where "k = nat (i - 1)"
    have ki: "i = int k + 1" "nat i = k + 1" "nat (i + 1) = k + 2" "nat (i - 1) = k"
      using q by (auto simp: k_def)
    have "k < length s - 2" using q ki by linarith
    moreover have "?P k" using q unfolding ki(2,3,4) by blast
    ultimately show "i \<in> set (local_maxima_indices s)"
      unfolding local_maxima_indices_filter using ki(1) by auto
  qed
  show "sorted_wrt (<) (local_maxima_indices s)"
  proof -
    have "sorted_wrt (<) (filter ?P [0..<length s - 2])"
      by (rule sorted_wrt_filter) simp
    moreover have "(\<lambda>x y. int x + 1 < int y + 1) = (<)"
      by (intro ext) auto
    ultimately show ?thesis
      unfolding local_maxima_indices_filter by (simp add: sorted_wrt_map)
  qed
  show "length s < 3 \<longrightarrow> local_maxima_indices s = []"
    by (simp add: local_maxima_indices_def)
qed

theorem local_maxima_indices_exact_witness:
  "length [1, 2 :: real] < 3 \<and> local_maxima_indices [1, 2] = []"
  using local_maxima_indices_exact [of "[1, 2]"] by simp

subsection \<open>Flanking-minimum walks\<close>

lemma left_walk_result:
  "0 \<le> j \<Longrightarrow> j + 1 < int (length s) \<Longrightarrow>
   \<exists>L. left_walk s j = Inr L \<and> 0 \<le> L \<and> L \<le> j
       \<and> (L = 0 \<or> is_local_min s L = Inr True)
       \<and> (\<forall>k. L < k \<and> k \<le> j \<longrightarrow> is_local_min s k = Inr False)"
proof (induction s j rule: left_walk.induct)
  case (1 s j)
  show ?case
  proof (cases "j > 0")
    case False
    with 1(2) have "j = 0" by simp
    then show ?thesis by (auto simp add: left_walk.simps)
  next
    case True
    let ?b = "s ! nat j \<le> s ! nat (j - 1) \<and> s ! nat j \<le> s ! nat (j + 1)"
    have lm: "is_local_min s j = Inr ?b"
      using True 1(3) by (rule is_local_min_in_range)
    show ?thesis
    proof (cases ?b)
      case True
      with lm \<open>j > 0\<close> show ?thesis by (auto simp add: left_walk.simps)
    next
      case False
      have "\<exists>L. left_walk s (j - 1) = Inr L \<and> 0 \<le> L \<and> L \<le> j - 1
         \<and> (L = 0 \<or> is_local_min s L = Inr True)
         \<and> (\<forall>k. L < k \<and> k \<le> j - 1 \<longrightarrow> is_local_min s k = Inr False)"
        using 1(1)[OF \<open>j > 0\<close> lm] False \<open>j > 0\<close> 1(3) by simp
      then obtain L where L: "left_walk s (j - 1) = Inr L" "0 \<le> L" "L \<le> j - 1"
         "L = 0 \<or> is_local_min s L = Inr True"
         "\<forall>k. L < k \<and> k \<le> j - 1 \<longrightarrow> is_local_min s k = Inr False" by blast
      have step: "left_walk s j = Inr L"
        using \<open>j > 0\<close> lm False L(1) by (subst left_walk.simps) simp
      have "\<forall>k. L < k \<and> k \<le> j \<longrightarrow> is_local_min s k = Inr False"
      proof (intro allI impI)
        fix k assume "L < k \<and> k \<le> j"
        then consider "k \<le> j - 1" | "k = j" by linarith
        then show "is_local_min s k = Inr False"
          using L(5) \<open>L < k \<and> k \<le> j\<close> lm False by cases auto
      qed
      with step L show ?thesis by auto
    qed
  qed
qed

lemma right_walk_result:
  "1 \<le> j \<Longrightarrow> j \<le> int (length s) - 1 \<Longrightarrow>
   \<exists>R. right_walk s (int (length s)) j = Inr R \<and> j \<le> R \<and> R \<le> int (length s) - 1
       \<and> (R = int (length s) - 1 \<or> is_local_min s R = Inr True)
       \<and> (\<forall>k. j \<le> k \<and> k < R \<longrightarrow> is_local_min s k = Inr False)"
proof (induction s "int (length s)" j rule: right_walk.induct)
  case (1 s j)
  let ?n = "int (length s)"
  show ?case
  proof (cases "j < ?n - 1")
    case False
    with 1(3) have "j = ?n - 1" by simp
    then show ?thesis by (auto simp add: right_walk.simps)
  next
    case True
    let ?b = "s ! nat j \<le> s ! nat (j - 1) \<and> s ! nat j \<le> s ! nat (j + 1)"
    have lm: "is_local_min s j = Inr ?b"
      using True 1(2) by (intro is_local_min_in_range) auto
    show ?thesis
    proof (cases ?b)
      case True
      with lm \<open>j < ?n - 1\<close> show ?thesis by (auto simp add: right_walk.simps)
    next
      case False
      have "\<exists>R. right_walk s ?n (j + 1) = Inr R \<and> j + 1 \<le> R \<and> R \<le> ?n - 1
         \<and> (R = ?n - 1 \<or> is_local_min s R = Inr True)
         \<and> (\<forall>k. j + 1 \<le> k \<and> k < R \<longrightarrow> is_local_min s k = Inr False)"
        using 1(1)[OF \<open>j < ?n - 1\<close> lm] False \<open>j < ?n - 1\<close> 1(2) by simp
      then obtain R where R: "right_walk s ?n (j + 1) = Inr R" "j + 1 \<le> R" "R \<le> ?n - 1"
         "R = ?n - 1 \<or> is_local_min s R = Inr True"
         "\<forall>k. j + 1 \<le> k \<and> k < R \<longrightarrow> is_local_min s k = Inr False" by blast
      have step: "right_walk s ?n j = Inr R"
        using \<open>j < ?n - 1\<close> lm False R(1) by (subst right_walk.simps) simp
      have "\<forall>k. j \<le> k \<and> k < R \<longrightarrow> is_local_min s k = Inr False"
      proof (intro allI impI)
        fix k assume "j \<le> k \<and> k < R"
        then consider "j + 1 \<le> k" | "k = j" by linarith
        then show "is_local_min s k = Inr False"
          using R(5) \<open>j \<le> k \<and> k < R\<close> lm False by cases auto
      qed
      with step R show ?thesis by auto
    qed
  qed
qed

text \<open>
  Claim C9. For a candidate index \<open>i\<close> (\<open>1 \<le> i \<le> n - 2\<close>) both walks return
  without an error: the left one an index \<open>L\<close> with \<open>0 \<le> L < i\<close>, the right one an
  index \<open>R\<close> with \<open>i < R \<le> n - 1\<close>. Each is the nearest local minimum on its side,
  or the boundary index when the walk meets none.
\<close>

theorem flanking_walks_return:
  assumes "1 \<le> i" and "i \<le> int (length s) - 2"
  shows "\<exists>L R. nearest_local_min_left s i = Inr L \<and> 0 \<le> L \<and> L < i
             \<and> (L = 0 \<or> is_local_min s L = Inr True)
             \<and> (\<forall>k. L < k \<and> k < i \<longrightarrow> is_local_min s k = Inr False)
             \<and> nearest_local_min_right s i = Inr R \<and> i < R \<and> R \<le> int (length s) - 1
             \<and> (R = int (length s) - 1 \<or> is_local_min s R = Inr True)
             \<and> (\<forall>k. i < k \<and> k < R \<longrightarrow> is_local_min s k = Inr False)"
proof -
  obtain L where L: "left_walk s (i - 1) = Inr L" "0 \<le> L" "L \<le> i - 1"
      "L = 0 \<or> is_local_min s L = Inr True"
      "\<forall>k. L < k \<and> k \<le> i - 1 \<longrightarrow> is_local_min s k = Inr False"
    using left_walk_result[of "i - 1" s] assms by auto
  obtain R where R: "right_walk s (int (length s)) (i + 1) = Inr R" "i + 1 \<le> R"
      "R \<le> int (length s) - 1"
      "R = int (length s) - 1 \<or> is_local_min s R = Inr True"
      "\<forall>k. i + 1 \<le> k \<and> k < R \<longrightarrow> is_local_min s k = Inr False"
    using right_walk_result[of "i + 1" s] assms by auto
  show ?thesis
    unfolding nearest_local_min_left_def nearest_local_min_right_def
    using L R by (intro exI[of _ L] exI[of _ R]) auto
qed

theorem flanking_walks_return_witness:
  "nearest_local_min_left [3, 1, 2, 5, 4, 4, 6] 3 = Inr 1
   \<and> nearest_local_min_right [3, 1, 2, 5, 4, 4, 6] 3 = Inr 4"
proof -
  let ?s = "[3, 1, 2, 5, 4, 4, 6] :: real list"
  have "\<exists>L R. nearest_local_min_left ?s 3 = Inr L \<and> 0 \<le> L \<and> L < 3
             \<and> (L = 0 \<or> is_local_min ?s L = Inr True)
             \<and> (\<forall>k. L < k \<and> k < 3 \<longrightarrow> is_local_min ?s k = Inr False)
             \<and> nearest_local_min_right ?s 3 = Inr R \<and> 3 < R \<and> R \<le> int (length ?s) - 1
             \<and> (R = int (length ?s) - 1 \<or> is_local_min ?s R = Inr True)
             \<and> (\<forall>k. 3 < k \<and> k < R \<longrightarrow> is_local_min ?s k = Inr False)"
    by (rule flanking_walks_return) simp_all
  then obtain L R where LR: "nearest_local_min_left ?s 3 = Inr L" "0 \<le> L" "L < 3"
      "L = 0 \<or> is_local_min ?s L = Inr True"
      "\<forall>k. L < k \<and> k < 3 \<longrightarrow> is_local_min ?s k = Inr False"
      "nearest_local_min_right ?s 3 = Inr R" "3 < R" "R \<le> int (length ?s) - 1"
      "R = int (length ?s) - 1 \<or> is_local_min ?s R = Inr True"
      "\<forall>k. 3 < k \<and> k < R \<longrightarrow> is_local_min ?s k = Inr False"
    by blast
  have m1: "is_local_min ?s 1 = Inr True" and m2: "is_local_min ?s 2 = Inr False"
    and m4: "is_local_min ?s 4 = Inr True"
    by (simp_all add: is_local_min_def item_def)
  have "L = 1"
  proof -
    from LR(2,3) have "L = 0 \<or> L = 1 \<or> L = 2" by auto
    with LR(4,5) m1 m2 show ?thesis by auto
  qed
  moreover have "R = 4"
  proof (rule ccontr)
    assume "R \<noteq> 4"
    with LR(7) have "3 < (4::int) \<and> 4 < R" by auto
    with LR(10) have "is_local_min ?s 4 = Inr False" by blast
    with m4 show False by simp
  qed
  ultimately show ?thesis using LR(1,6) by simp
qed

subsection \<open>Half-prominence width and candidates\<close>

lemma left_scan_result:
  "left_min_i \<le> li \<Longrightarrow> 0 \<le> left_min_i \<Longrightarrow> li < int (length s) \<Longrightarrow>
   \<exists>r. left_scan s left_min_i level li = Inr r \<and> left_min_i \<le> r \<and> r \<le> li"
proof (induction s left_min_i level li rule: left_scan.induct)
  case (1 s left_min_i level li)
  show ?case
  proof (cases "li > left_min_i")
    case False
    with 1(2) show ?thesis by (simp add: left_scan.simps)
  next
    case True
    have it: "item s li = Inr (s ! nat li)"
      using True 1(3,4) by (intro item_in_range) auto
    show ?thesis
    proof (cases "s ! nat li > level")
      case False
      with True it show ?thesis by (simp add: left_scan.simps)
    next
      case gt: True
      have "\<exists>r. left_scan s left_min_i level (li - 1) = Inr r \<and> left_min_i \<le> r \<and> r \<le> li - 1"
        using 1(1)[OF True it gt] True 1(3,4) by simp
      then obtain r where "left_scan s left_min_i level (li - 1) = Inr r"
        "left_min_i \<le> r" "r \<le> li - 1" by blast
      moreover from this True it gt have "left_scan s left_min_i level li = Inr r"
        by (subst left_scan.simps) simp
      ultimately show ?thesis by auto
    qed
  qed
qed

lemma right_scan_result:
  "ri \<le> right_min_i \<Longrightarrow> 0 \<le> ri \<Longrightarrow> right_min_i < int (length s) \<Longrightarrow>
   \<exists>r. right_scan s right_min_i level ri = Inr r \<and> ri \<le> r \<and> r \<le> right_min_i"
proof (induction s right_min_i level ri rule: right_scan.induct)
  case (1 s right_min_i level ri)
  show ?case
  proof (cases "ri < right_min_i")
    case False
    with 1(2) show ?thesis by (simp add: right_scan.simps)
  next
    case True
    have it: "item s ri = Inr (s ! nat ri)"
      using True 1(3,4) by (intro item_in_range) auto
    show ?thesis
    proof (cases "s ! nat ri > level")
      case False
      with True it show ?thesis by (simp add: right_scan.simps)
    next
      case gt: True
      have "\<exists>r. right_scan s right_min_i level (ri + 1) = Inr r \<and> ri + 1 \<le> r \<and> r \<le> right_min_i"
        using 1(1)[OF True it gt] True 1(3,4) by simp
      then obtain r where "right_scan s right_min_i level (ri + 1) = Inr r"
        "ri + 1 \<le> r" "r \<le> right_min_i" by blast
      moreover from this True it gt have "right_scan s right_min_i level ri = Inr r"
        by (subst right_scan.simps) simp
      ultimately show ?thesis by auto
    qed
  qed
qed

lemma interp_x_at_level_total:
  assumes "0 \<le> i0" "i0 < int (length s)" "0 \<le> i1" "i1 < int (length s)"
    and "length x = length s"
  shows "\<exists>v. interp_x_at_level x s i0 i1 level = Inr v"
  using assms by (simp add: interp_x_at_level_def item_in_range)

lemma half_prominence_width_total:
  assumes "0 \<le> left_min_i" "left_min_i \<le> peak_i" "peak_i \<le> right_min_i"
    and "right_min_i < int (length s)" "length x = length s"
  shows "\<exists>lx rx. half_prominence_width x s peak_i left_min_i right_min_i baseline prom
                   = Inr (lx, rx)"
proof -
  define level where "level = baseline + 0.5 * prom"
  obtain li where li: "left_scan s left_min_i level peak_i = Inr li"
      "left_min_i \<le> li" "li \<le> peak_i"
    using left_scan_result[of left_min_i peak_i s level] assms by auto
  obtain ri where ri: "right_scan s right_min_i level peak_i = Inr ri"
      "peak_i \<le> ri" "ri \<le> right_min_i"
    using right_scan_result[of peak_i right_min_i s level] assms by auto
  have pk: "item x peak_i = Inr (x ! nat peak_i)"
    using assms by (intro item_in_range) auto
  obtain lx where lx: "(if li = peak_i then item x peak_i
                else interp_x_at_level x s li (li + 1) level) = Inr lx"
  proof (cases "li = peak_i")
    case True
    with pk that show ?thesis by simp
  next
    case False
    then have "\<exists>v. interp_x_at_level x s li (li + 1) level = Inr v"
      using li assms by (intro interp_x_at_level_total) auto
    with False that show ?thesis by auto
  qed
  obtain rx where rx: "(if ri = peak_i then item x peak_i
                else interp_x_at_level x s (ri - 1) ri level) = Inr rx"
  proof (cases "ri = peak_i")
    case True
    with pk that show ?thesis by simp
  next
    case False
    then have "\<exists>v. interp_x_at_level x s (ri - 1) ri level = Inr v"
      using ri assms by (intro interp_x_at_level_total) auto
    with False that show ?thesis by auto
  qed
  show ?thesis
    unfolding half_prominence_width_def Let_def level_def[symmetric]
    by (simp only: li(1) lx ri(1) rx sum.case) simp
qed

lemma peak_candidate_result:
  assumes "1 \<le> i" "i \<le> int (length ss) - 2" "length x = length ss"
  shows "\<exists>c. peak_candidate x ss min_prominence knd i = Inr c
            \<and> (\<forall>p pr. c = Some (p, pr) \<longrightarrow>
                  0 < p \<and> min_prominence \<le> p \<and> prominence pr = p
                  \<and> left pr \<le> right pr \<and> kind pr = knd)"
proof -
  obtain L where L: "nearest_local_min_left ss i = Inr L" "0 \<le> L" "L < i"
    using left_walk_result[of "i - 1" ss] assms
    unfolding nearest_local_min_left_def by auto
  obtain R where R: "nearest_local_min_right ss i = Inr R" "i < R" "R \<le> int (length ss) - 1"
    using right_walk_result[of "i + 1" ss] assms
    unfolding nearest_local_min_right_def by auto
  have iL: "item ss L = Inr (ss ! nat L)" using L R assms by (intro item_in_range) auto
  have iR: "item ss R = Inr (ss ! nat R)" using L R assms by (intro item_in_range) auto
  have iP: "item ss i = Inr (ss ! nat i)" using L R assms by (intro item_in_range) auto
  have iX: "item x i = Inr (x ! nat i)" using L R assms by (intro item_in_range) auto
  define baseline where "baseline = max (ss ! nat L) (ss ! nat R)"
  define prom where "prom = ss ! nat i - baseline"
  obtain lx rx where hw: "half_prominence_width x ss i L R baseline prom = Inr (lx, rx)"
    using half_prominence_width_total[of L i R ss x baseline prom] L R assms by auto
  have "peak_candidate x ss min_prominence knd i =
          (if prom \<le> 0 \<or> prom < min_prominence then Inr None
           else Inr (Some (prom, \<lparr>kind = knd, left = min lx rx, center = x ! nat i,
                                  right = max lx rx, prominence = prom\<rparr>)))"
    unfolding peak_candidate_def
    by (simp only: L(1) R(1) iL iP iR iX sum.case Let_def baseline_def[symmetric]
          prom_def[symmetric] hw prod.case)
  then show ?thesis by auto
qed

subsection \<open>Candidates, ranking and the single-polarity extraction\<close>

lemma collect_candidates_result:
  assumes "\<forall>i \<in> set idxs. 1 \<le> i \<and> i \<le> int (length ss) - 2" "length x = length ss"
  shows "\<exists>cs. collect_candidates x ss min_prominence knd idxs = Inr cs
            \<and> (\<forall>t \<in> set cs. 0 < fst t \<and> min_prominence \<le> fst t
                   \<and> prominence (snd t) = fst t
                   \<and> left (snd t) \<le> right (snd t) \<and> kind (snd t) = knd)"
  using assms(1)
proof (induction idxs)
  case Nil
  show ?case by simp
next
  case (Cons i rest)
  obtain c where c: "peak_candidate x ss min_prominence knd i = Inr c"
      "\<forall>p pr. c = Some (p, pr) \<longrightarrow>
          0 < p \<and> min_prominence \<le> p \<and> prominence pr = p
          \<and> left pr \<le> right pr \<and> kind pr = knd"
    using peak_candidate_result[of i ss x min_prominence knd] Cons.prems assms(2) by auto
  obtain cs where cs: "collect_candidates x ss min_prominence knd rest = Inr cs"
      "\<forall>t \<in> set cs. 0 < fst t \<and> min_prominence \<le> fst t \<and> prominence (snd t) = fst t
                   \<and> left (snd t) \<le> right (snd t) \<and> kind (snd t) = knd"
    using Cons.IH Cons.prems by auto
  show ?case
  proof (cases c)
    case None
    with c cs show ?thesis by simp
  next
    case (Some t)
    with c(2) have "0 < fst t \<and> min_prominence \<le> fst t \<and> prominence (snd t) = fst t
                   \<and> left (snd t) \<le> right (snd t) \<and> kind (snd t) = knd"
      by (cases t) simp
    with Some c(1) cs show ?thesis by simp
  qed
qed

lemma local_maxima_indices_range:
  "i \<in> set (local_maxima_indices s) \<Longrightarrow> 1 \<le> i \<and> i \<le> int (length s) - 2"
  unfolding local_maxima_indices_filter by auto

lemma sort_key_descending:
  "sorted_wrt (\<lambda>a b. fst b \<le> fst a) (sort_key (\<lambda>t. - fst t) (cs :: (real \<times> 'a) list))"
proof -
  have "sorted (map (\<lambda>t. - fst t) (sort_key (\<lambda>t. - fst t) cs))"
    by (rule sorted_sort_key)
  then show ?thesis by (simp add: sorted_map)
qed

lemma rank_and_select_length: "length (rank_and_select cs n) \<le> nat (max 0 n)"
  by (simp add: rank_and_select_def)

lemma rank_and_select_nonpositive: "n \<le> 0 \<Longrightarrow> rank_and_select cs n = []"
  by (simp add: rank_and_select_def)

lemma rank_and_select_subset: "set (rank_and_select cs n) \<subseteq> snd ` set cs"
proof -
  have "set (take (nat (max 0 n)) (sort_key (\<lambda>t. - fst t) cs)) \<subseteq> set cs"
    using set_take_subset[of "nat (max 0 n)" "sort_key (\<lambda>t. - fst t) cs"] by simp
  then show ?thesis unfolding rank_and_select_def by auto
qed

lemma rank_and_select_sorted:
  assumes "\<forall>t \<in> set cs. prominence (snd t) = fst t"
  shows "sorted_wrt (\<lambda>a b. prominence b \<le> prominence a) (rank_and_select cs n)"
proof -
  let ?l = "take (nat (max 0 n)) (sort_key (\<lambda>t. - fst t) cs)"
  have s: "sorted_wrt (\<lambda>a b. fst b \<le> fst a) ?l"
    by (rule sorted_wrt_take) (rule sort_key_descending)
  have sub: "set ?l \<subseteq> set cs"
    using set_take_subset[of "nat (max 0 n)" "sort_key (\<lambda>t. - fst t) cs"] by simp
  have "sorted_wrt (\<lambda>a b. prominence (snd b) \<le> prominence (snd a)) ?l"
  proof (rule sorted_wrt_mono_rel[OF _ s])
    fix a b assume "a \<in> set ?l" "b \<in> set ?l" "fst b \<le> fst a"
    moreover from this sub assms have "prominence (snd a) = fst a" "prominence (snd b) = fst b"
      by blast+
    ultimately show "prominence (snd b) \<le> prominence (snd a)" by simp
  qed
  then show ?thesis by (simp add: rank_and_select_def sorted_wrt_map)
qed

lemma extract_peaks_from_signal_result:
  assumes "length x = length s"
  shows "\<exists>ps. extract_peaks_from_signal x s top_n smooth_window min_prominence_ratio knd = Inr ps
            \<and> (\<forall>p \<in> set ps. 0 < prominence p \<and> left p \<le> right p \<and> kind p = knd)
            \<and> length ps \<le> nat (max 0 top_n)
            \<and> sorted_wrt (\<lambda>a b. prominence b \<le> prominence a) ps
            \<and> (top_n \<le> 0 \<longrightarrow> ps = [])"
proof -
  obtain ss where ss: "smooth s smooth_window = Inr ss" "length ss = length s"
    using smooth_total_length by blast
  show ?thesis
  proof (cases "local_maxima_indices ss = []")
    case True
    with ss show ?thesis by (simp add: extract_peaks_from_signal_def)
  next
    case False
    define mp where "mp = (if (if ss \<noteq> [] then Max (set ss) - Min (set ss) else 0) > 0
        then (if ss \<noteq> [] then Max (set ss) - Min (set ss) else 0) * min_prominence_ratio else 0)"
    obtain cs where cs: "collect_candidates x ss mp knd (local_maxima_indices ss) = Inr cs"
      "\<forall>t \<in> set cs. 0 < fst t \<and> mp \<le> fst t \<and> prominence (snd t) = fst t
                   \<and> left (snd t) \<le> right (snd t) \<and> kind (snd t) = knd"
      using collect_candidates_result[of "local_maxima_indices ss" ss x mp knd]
        local_maxima_indices_range[of _ ss] assms ss(2) by auto
    have eq: "extract_peaks_from_signal x s top_n smooth_window min_prominence_ratio knd
               = Inr (rank_and_select cs top_n)"
    proof -
      have "extract_peaks_from_signal x s top_n smooth_window min_prominence_ratio knd
              = (case collect_candidates x ss mp knd (local_maxima_indices ss) of
                   Inl e \<Rightarrow> Inl e
                 | Inr candidates \<Rightarrow> Inr (rank_and_select candidates top_n))"
        unfolding extract_peaks_from_signal_def Let_def mp_def
        by (simp only: ss(1) sum.case False if_False)
      then show ?thesis by (simp add: cs(1))
    qed
    have "\<forall>p \<in> set (rank_and_select cs top_n). 0 < prominence p \<and> left p \<le> right p \<and> kind p = knd"
    proof
      fix p assume "p \<in> set (rank_and_select cs top_n)"
      then obtain t where "t \<in> set cs" "p = snd t"
        using rank_and_select_subset[of cs top_n] by auto
      with cs(2) show "0 < prominence p \<and> left p \<le> right p \<and> kind p = knd"
        by auto
    qed
    moreover have "sorted_wrt (\<lambda>a b. prominence b \<le> prominence a) (rank_and_select cs top_n)"
      using cs(2) by (intro rank_and_select_sorted) auto
    ultimately show ?thesis
      using eq rank_and_select_length[of cs top_n] rank_and_select_nonpositive[of top_n cs]
      by auto
  qed
qed

lemma compress_length_filter:
  "length a = length b \<Longrightarrow>
   length (compress (map P (zip a b)) a) = length (filter P (zip a b))
   \<and> length (compress (map P (zip a b)) b) = length (filter P (zip a b))"
  by (induction a b rule: list_induct2) (auto simp: compress_def)

subsection \<open>The label of a peak does not influence the extraction\<close>

lemma peak_candidate_kind:
  "peak_candidate x ss mp k2 i =
     map_sum id (map_option (apsnd (\<lambda>p. p\<lparr>kind := k2\<rparr>))) (peak_candidate x ss mp k1 i)"
  by (simp add: peak_candidate_def Let_def split: sum.splits prod.splits)

lemma collect_candidates_kind:
  "collect_candidates x ss mp k2 idxs =
     map_sum id (map (apsnd (\<lambda>p. p\<lparr>kind := k2\<rparr>))) (collect_candidates x ss mp k1 idxs)"
proof (induction idxs)
  case Nil
  show ?case by simp
next
  case (Cons i rest)
  show ?case
    by (simp add: Cons.IH peak_candidate_kind[of x ss mp k2 i k1]
          split: sum.splits option.splits)
qed

lemma insort_key_apsnd:
  "insort_key (\<lambda>t. - fst t) (apsnd f a) (map (apsnd f) xs)
     = map (apsnd f) (insort_key (\<lambda>t. - fst t) a (xs :: (real \<times> 'a) list))"
  by (induction xs) auto

lemma sort_key_apsnd:
  "sort_key (\<lambda>t. - fst t) (map (apsnd f) (cs :: (real \<times> 'a) list))
     = map (apsnd f) (sort_key (\<lambda>t. - fst t) cs)"
  by (induction cs) (simp_all add: insort_key_apsnd)

lemma rank_and_select_apsnd:
  "rank_and_select (map (apsnd f) cs) n = map f (rank_and_select cs n)"
  by (simp add: rank_and_select_def sort_key_apsnd take_map)

lemma extract_peaks_from_signal_kind:
  "extract_peaks_from_signal x s n w r k2 =
     map_sum id (map (\<lambda>p. p\<lparr>kind := k2\<rparr>)) (extract_peaks_from_signal x s n w r k1)"
proof -
  have "\<And>ss mp. (case collect_candidates x ss mp k2 (local_maxima_indices ss) of
             Inl e \<Rightarrow> Inl e | Inr c \<Rightarrow> Inr (rank_and_select c n))
        = map_sum id (map (\<lambda>p. p\<lparr>kind := k2\<rparr>))
            (case collect_candidates x ss mp k1 (local_maxima_indices ss) of
               Inl e \<Rightarrow> Inl e | Inr c \<Rightarrow> Inr (rank_and_select c n))"
    by (simp add: collect_candidates_kind[of x _ _ k2 _ k1] rank_and_select_apsnd
          split: sum.splits)
  then show ?thesis
    unfolding extract_peaks_from_signal_def Let_def
    by (simp split: sum.splits)
qed

subsection \<open>Orchestration\<close>

lemma extract_top_peaks_exact:
  "extract_top_peaks x y top_n md smooth_window min_prominence_ratio =
     (if length x \<noteq> length y \<or> length x < 3 then Inr []
      else
        let msk = map (\<lambda>(a, b). isfinite a \<and> isfinite b) (zip x y);
            x_arr = map finite_value (compress msk x);
            y_arr = map finite_value (compress msk y)
        in if length x_arr < 3 then Inr []
           else if md = Mode_max
             then extract_peaks_from_signal x_arr y_arr top_n smooth_window
                    min_prominence_ratio Kind_max
           else if md = Mode_min
             then extract_peaks_from_signal x_arr (map uminus y_arr) top_n smooth_window
                    min_prominence_ratio Kind_min
           else
             (case extract_peaks_from_signal x_arr y_arr top_n smooth_window
                     min_prominence_ratio Kind_max of
                Inl e \<Rightarrow> Inl e
              | Inr peaks_max \<Rightarrow>
                 (case extract_peaks_from_signal x_arr (map uminus y_arr) top_n smooth_window
                         min_prominence_ratio Kind_min of
                    Inl e \<Rightarrow> Inl e
                  | Inr peaks_min \<Rightarrow>
                     (let score_max = sum_list (map prominence peaks_max);
                          score_min = sum_list (map prominence peaks_min)
                      in Inr (if score_min > score_max then peaks_min else peaks_max)))))"
  unfolding extract_top_peaks_def extract_top_peaks_scored_def Let_def
  by (simp split: sum.splits)

lemma extract_top_peaks_early:
  assumes "length x \<noteq> length y \<or> length x < 3
           \<or> length (filter (\<lambda>(a, b). isfinite a \<and> isfinite b) (zip x y)) < 3"
  shows "extract_top_peaks x y top_n md smooth_window min_prominence_ratio = Inr []"
proof (cases "length x \<noteq> length y \<or> length x < 3")
  case True
  then show ?thesis by (auto simp: extract_top_peaks_exact)
next
  case False
  with assms have "length (filter (\<lambda>(a, b). isfinite a \<and> isfinite b) (zip x y)) < 3"
    by blast
  moreover have "length (compress (map (\<lambda>(a, b). isfinite a \<and> isfinite b) (zip x y)) x)
        = length (filter (\<lambda>(a, b). isfinite a \<and> isfinite b) (zip x y))"
    using False compress_length_filter[of x y] by simp
  ultimately show ?thesis
    using False by (simp add: extract_top_peaks_exact Let_def)
qed

lemma extract_top_peaks_result:
  "\<exists>ps. extract_top_peaks x y top_n md smooth_window min_prominence_ratio = Inr ps
        \<and> (\<forall>p \<in> set ps. 0 < prominence p \<and> left p \<le> right p)
        \<and> length ps \<le> nat (max 0 top_n)
        \<and> sorted_wrt (\<lambda>a b. prominence b \<le> prominence a) ps
        \<and> (top_n \<le> 0 \<longrightarrow> ps = [])
        \<and> (md = Mode_max \<longrightarrow> (\<forall>p \<in> set ps. kind p = Kind_max))
        \<and> (md = Mode_min \<longrightarrow> (\<forall>p \<in> set ps. kind p = Kind_min))"
proof (cases "length x \<noteq> length y \<or> length x < 3
           \<or> length (filter (\<lambda>(a, b). isfinite a \<and> isfinite b) (zip x y)) < 3")
  case True
  then show ?thesis by (simp add: extract_top_peaks_early)
next
  case False
  define msk where "msk = map (\<lambda>(a, b). isfinite a \<and> isfinite b) (zip x y)"
  define x_arr where "x_arr = map finite_value (compress msk x)"
  define y_arr where "y_arr = map finite_value (compress msk y)"
  have len: "length x_arr = length y_arr" "\<not> length x_arr < 3"
    using False compress_length_filter[of x y "\<lambda>(a, b). isfinite a \<and> isfinite b"]
    by (simp_all add: x_arr_def y_arr_def msk_def)
  have unfold: "extract_top_peaks x y top_n md smooth_window min_prominence_ratio =
     (if md = Mode_max
        then extract_peaks_from_signal x_arr y_arr top_n smooth_window
               min_prominence_ratio Kind_max
      else if md = Mode_min
        then extract_peaks_from_signal x_arr (map uminus y_arr) top_n smooth_window
               min_prominence_ratio Kind_min
      else (case extract_peaks_from_signal x_arr y_arr top_n smooth_window
                   min_prominence_ratio Kind_max of
              Inl e \<Rightarrow> Inl e
            | Inr peaks_max \<Rightarrow>
               (case extract_peaks_from_signal x_arr (map uminus y_arr) top_n smooth_window
                       min_prominence_ratio Kind_min of
                  Inl e \<Rightarrow> Inl e
                | Inr peaks_min \<Rightarrow>
                    Inr (if sum_list (map prominence peaks_min) > sum_list (map prominence peaks_max)
                         then peaks_min else peaks_max))))"
    using False len(2)
    unfolding extract_top_peaks_exact Let_def msk_def[symmetric] x_arr_def[symmetric]
      y_arr_def[symmetric]
    by simp
  obtain pmax where pmax:
      "extract_peaks_from_signal x_arr y_arr top_n smooth_window min_prominence_ratio Kind_max
         = Inr pmax"
      "\<forall>p \<in> set pmax. 0 < prominence p \<and> left p \<le> right p \<and> kind p = Kind_max"
      "length pmax \<le> nat (max 0 top_n)"
      "sorted_wrt (\<lambda>a b. prominence b \<le> prominence a) pmax"
      "top_n \<le> 0 \<longrightarrow> pmax = []"
    using extract_peaks_from_signal_result[OF len(1), of top_n smooth_window
        min_prominence_ratio Kind_max] by blast
  have "length x_arr = length (map uminus y_arr)" using len(1) by simp
  then obtain pmin where pmin:
      "extract_peaks_from_signal x_arr (map uminus y_arr) top_n smooth_window
         min_prominence_ratio Kind_min = Inr pmin"
      "\<forall>p \<in> set pmin. 0 < prominence p \<and> left p \<le> right p \<and> kind p = Kind_min"
      "length pmin \<le> nat (max 0 top_n)"
      "sorted_wrt (\<lambda>a b. prominence b \<le> prominence a) pmin"
      "top_n \<le> 0 \<longrightarrow> pmin = []"
    using extract_peaks_from_signal_result[of x_arr "map uminus y_arr" top_n smooth_window
        min_prominence_ratio Kind_min] by blast
  consider "md = Mode_max" | "md = Mode_min" | "md = Mode_auto"
    by (cases md) auto
  then show ?thesis
  proof cases
    case 1
    with unfold pmax show ?thesis by auto
  next
    case 2
    with unfold pmin show ?thesis by auto
  next
    case 3
    show ?thesis
    proof (cases "sum_list (map prominence pmin) > sum_list (map prominence pmax)")
      case True
      with 3 unfold pmax(1) pmin show ?thesis by auto
    next
      case False
      with 3 unfold pmin(1) pmax show ?thesis by auto
    qed
  qed
qed

lemma compress_map: "compress msk (map f a) = map f (compress msk a)"
  by (simp add: compress_def zip_map2 filter_map comp_def case_prod_beta)

lemma finite_mask_fneg:
  "map (\<lambda>(a, b). isfinite a \<and> isfinite b) (zip x (map fneg y))
     = map (\<lambda>(a, b). isfinite a \<and> isfinite b) (zip x y)"
proof -
  have "isfinite (fneg b) = isfinite b" for b by (cases b) simp_all
  then show ?thesis by (simp add: zip_map2 case_prod_beta)
qed

lemma finite_value_fneg: "finite_value (fneg b) = - finite_value b"
  by (cases b) simp_all

lemma extract_top_peaks_polarity:
  "extract_top_peaks x y top_n Mode_min smooth_window min_prominence_ratio =
     map_sum id (map (\<lambda>p. p\<lparr>kind := Kind_min\<rparr>))
       (extract_top_peaks x (map fneg y) top_n Mode_max smooth_window min_prominence_ratio)"
proof -
  have v: "map finite_value (map fneg ys) = map uminus (map finite_value ys)" for ys
    by (simp add: finite_value_fneg)
  show ?thesis
    unfolding extract_top_peaks_exact Let_def finite_mask_fneg compress_map v
    using extract_peaks_from_signal_kind[of _ _ top_n smooth_window min_prominence_ratio
            Kind_min Kind_max]
    by simp
qed

lemma smooth_no_window: "window \<le> 1 \<Longrightarrow> smooth s window = Inr s"
  by (simp add: smooth_def)

lemma extract_top_peaks_no_window:
  assumes "smooth_window \<le> 1"
  shows "extract_top_peaks x y top_n md smooth_window min_prominence_ratio
         = extract_top_peaks x y top_n md 1 min_prominence_ratio"
proof -
  have e: "extract_peaks_from_signal xa s top_n smooth_window min_prominence_ratio k
        = extract_peaks_from_signal xa s top_n 1 min_prominence_ratio k" for xa s k
    unfolding extract_peaks_from_signal_def using assms by (simp add: smooth_no_window)
  show ?thesis unfolding extract_top_peaks_exact by (simp only: e)
qed

lemma collect_candidates_in_index_order:
  "collect_candidates x ss min_prominence knd idxs = Inr cs \<Longrightarrow>
     cs = List.map_filter
            (\<lambda>i. case peak_candidate x ss min_prominence knd i of
                    Inl e \<Rightarrow> None | Inr c \<Rightarrow> c) idxs"
proof (induction idxs arbitrary: cs)
  case Nil
  then show ?case by (simp add: map_filter_simps)
next
  case (Cons i rest)
  from Cons.prems obtain c cs' where c: "peak_candidate x ss min_prominence knd i = Inr c"
      and cs': "collect_candidates x ss min_prominence knd rest = Inr cs'"
      and eq: "cs = (case c of None \<Rightarrow> cs' | Some t \<Rightarrow> t # cs')"
    by (auto split: sum.splits)
  from Cons.IH[OF cs'] c eq show ?case
    by (simp add: map_filter_simps split: option.splits)
qed

lemma extract_top_peaks_scored_single_mode:
  "md \<noteq> Mode_auto \<Longrightarrow>
   extract_top_peaks_scored float_sum x y top_n md smooth_window min_prominence_ratio
     = extract_top_peaks x y top_n md smooth_window min_prominence_ratio"
  unfolding extract_top_peaks_def extract_top_peaks_scored_def Let_def
  by (cases md) simp_all

lemma extract_peaks_from_signal_ranked:
  assumes "length x = length s"
  shows "\<exists>ss cands srt.
           smooth s smooth_window = Inr ss
         \<and> sorted_wrt (<) (local_maxima_indices ss)
         \<and> (let global_span = (if ss \<noteq> [] then Max (set ss) - Min (set ss) else 0);
                 min_prominence =
                   (if global_span > 0 then global_span * min_prominence_ratio else 0)
             in cands = List.map_filter
                          (\<lambda>i. case peak_candidate x ss min_prominence knd i of
                                  Inl e \<Rightarrow> None | Inr c \<Rightarrow> c)
                          (local_maxima_indices ss))
         \<and> (\<forall>t \<in> set cands. fst t = prominence (snd t))
         \<and> mset srt = mset cands
         \<and> sorted_wrt (\<lambda>a b. fst b \<le> fst a) srt
         \<and> (\<forall>k. filter (\<lambda>t. fst t = k) srt = filter (\<lambda>t. fst t = k) cands)
         \<and> extract_peaks_from_signal x s top_n smooth_window min_prominence_ratio knd
             = Inr (map snd (take (nat top_n) srt))"
proof -
  obtain ss where ss: "smooth s smooth_window = Inr ss" "length ss = length s"
    using smooth_total_length by blast
  define mp where "mp = (let global_span = (if ss \<noteq> [] then Max (set ss) - Min (set ss) else 0)
      in if global_span > 0 then global_span * min_prominence_ratio else 0)"
  obtain cs where cs: "collect_candidates x ss mp knd (local_maxima_indices ss) = Inr cs"
      "\<forall>t \<in> set cs. 0 < fst t \<and> mp \<le> fst t \<and> prominence (snd t) = fst t
                   \<and> left (snd t) \<le> right (snd t) \<and> kind (snd t) = knd"
    using collect_candidates_result[of "local_maxima_indices ss" ss x mp knd]
      local_maxima_indices_range[of _ ss] assms ss(2) by auto
  have order: "cs = List.map_filter
                      (\<lambda>i. case peak_candidate x ss mp knd i of Inl e \<Rightarrow> None | Inr c \<Rightarrow> c)
                      (local_maxima_indices ss)"
    using cs(1) by (rule collect_candidates_in_index_order)
  let ?srt = "sort_key (\<lambda>t. - fst t) cs"
  have stable: "filter (\<lambda>t. fst t = k) ?srt = filter (\<lambda>t. fst t = k) cs" for k
    using sort_key_stable[of "\<lambda>t. - fst t" "- k" cs] by simp
  have asc: "sorted_wrt (<) (local_maxima_indices ss)"
  proof -
    have "sorted_wrt (<) (filter P [0..<length ss - 2])" for P
      by (rule sorted_wrt_filter) simp
    moreover have "(\<lambda>x y. int x + 1 < int y + 1) = (<)"
      by (intro ext) auto
    ultimately show ?thesis
      unfolding local_maxima_indices_filter by (simp add: sorted_wrt_map)
  qed
  have res: "extract_peaks_from_signal x s top_n smooth_window min_prominence_ratio knd
               = Inr (map snd (take (nat top_n) ?srt))"
  proof (cases "local_maxima_indices ss = []")
    case True
    with cs(1) have "cs = []" by simp
    with True ss(1) show ?thesis by (simp add: extract_peaks_from_signal_def)
  next
    case False
    have "extract_peaks_from_signal x s top_n smooth_window min_prominence_ratio knd
              = (case collect_candidates x ss mp knd (local_maxima_indices ss) of
                   Inl e \<Rightarrow> Inl e
                 | Inr candidates \<Rightarrow> Inr (rank_and_select candidates top_n))"
      unfolding extract_peaks_from_signal_def Let_def mp_def
      by (simp only: ss(1) sum.case False if_False)
    moreover have "nat (max 0 top_n) = nat top_n" by simp
    ultimately show ?thesis by (simp add: cs(1) rank_and_select_def)
  qed
  have "\<forall>t \<in> set cs. fst t = prominence (snd t)" using cs(2) by auto
  moreover have "mset ?srt = mset cs" by simp
  moreover note sort_key_descending[of cs] stable res asc ss(1)
  moreover have "(let global_span = (if ss \<noteq> [] then Max (set ss) - Min (set ss) else 0);
                 min_prominence =
                   (if global_span > 0 then global_span * min_prominence_ratio else 0)
             in cs = List.map_filter
                          (\<lambda>i. case peak_candidate x ss min_prominence knd i of
                                  Inl e \<Rightarrow> None | Inr c \<Rightarrow> c)
                          (local_maxima_indices ss))"
    using order unfolding mp_def Let_def .
  ultimately show ?thesis by blast
qed

lemma extract_peaks_from_signal_empty:
  "extract_peaks_from_signal [] [] top_n smooth_window min_prominence_ratio knd = Inr []"
  by (simp add: extract_peaks_from_signal_def smooth_def local_maxima_indices_def Let_def)

lemma extract_top_peaks_from_signal:
  "\<exists>xa ya knd. length xa = length ya
      \<and> extract_top_peaks x y top_n md smooth_window min_prominence_ratio
          = extract_peaks_from_signal xa ya top_n smooth_window min_prominence_ratio knd"
proof (cases "length x \<noteq> length y \<or> length x < 3
           \<or> length (filter (\<lambda>(a, b). isfinite a \<and> isfinite b) (zip x y)) < 3")
  case True
  then have "extract_top_peaks x y top_n md smooth_window min_prominence_ratio = Inr []"
    by (rule extract_top_peaks_early)
  then show ?thesis
    using extract_peaks_from_signal_empty[of top_n smooth_window min_prominence_ratio Kind_max]
    by (intro exI[of _ "[]"] exI[of _ Kind_max]) simp
next
  case False
  define msk where "msk = map (\<lambda>(a, b). isfinite a \<and> isfinite b) (zip x y)"
  define x_arr where "x_arr = map finite_value (compress msk x)"
  define y_arr where "y_arr = map finite_value (compress msk y)"
  have len: "length x_arr = length y_arr" "\<not> length x_arr < 3"
    using False compress_length_filter[of x y "\<lambda>(a, b). isfinite a \<and> isfinite b"]
    by (simp_all add: x_arr_def y_arr_def msk_def)
  have len': "length x_arr = length (map uminus y_arr)" using len(1) by simp
  let ?emax = "extract_peaks_from_signal x_arr y_arr top_n smooth_window
                 min_prominence_ratio Kind_max"
  let ?emin = "extract_peaks_from_signal x_arr (map uminus y_arr) top_n smooth_window
                 min_prominence_ratio Kind_min"
  obtain pmax where pmax: "?emax = Inr pmax"
    using extract_peaks_from_signal_result[OF len(1)] by blast
  obtain pmin where pmin: "?emin = Inr pmin"
    using extract_peaks_from_signal_result[OF len'] by blast
  have "extract_top_peaks x y top_n md smooth_window min_prominence_ratio = ?emax
        \<or> extract_top_peaks x y top_n md smooth_window min_prominence_ratio = ?emin"
    using False len(2) pmax pmin
    unfolding extract_top_peaks_exact Let_def msk_def[symmetric] x_arr_def[symmetric]
      y_arr_def[symmetric]
    by auto
  with len(1) len' show ?thesis by blast
qed

lemma extract_top_peaks_scored_choice:
  "extract_top_peaks_scored float_sum x y top_n md smooth_window min_prominence_ratio
     = extract_top_peaks x y top_n Mode_max smooth_window min_prominence_ratio
   \<or> extract_top_peaks_scored float_sum x y top_n md smooth_window min_prominence_ratio
     = extract_top_peaks x y top_n Mode_min smooth_window min_prominence_ratio"
proof (cases "md = Mode_auto")
  case False
  then have "md = Mode_max \<or> md = Mode_min" by (cases md) auto
  with False show ?thesis
    using extract_top_peaks_scored_single_mode[of md float_sum x y top_n smooth_window
            min_prominence_ratio]
    by auto
next
  case True
  obtain pmax where pmax:
    "extract_top_peaks x y top_n Mode_max smooth_window min_prominence_ratio = Inr pmax"
    using extract_top_peaks_result by blast
  obtain pmin where pmin:
    "extract_top_peaks x y top_n Mode_min smooth_window min_prominence_ratio = Inr pmin"
    using extract_top_peaks_result by blast
  show ?thesis
    using pmax pmin True
    unfolding extract_top_peaks_def extract_top_peaks_scored_def Let_def
    by (auto split: if_splits)
qed

section \<open>The claims about the orchestration\<close>

subsection \<open>Scenario D\<close>

text \<open>
  Claim C1, as the code has it. For \<open>x = [0, 1, 2]\<close>, \<open>y = [1, 2, 1]\<close> and the default
  parameters the result is one peak of kind \<open>max\<close> with centre \<open>x[1] = 1\<close>, baseline
  \<open>1\<close> and prominence \<open>1\<close>. Its bounds are not the degenerate \<open>1, 1\<close>: each walk
  leaves the apex (which lies above the half-maximum level \<open>1.5\<close>) and stops on the
  neighbour, and the bounds are the interpolated crossings \<open>0.5\<close> and \<open>1.5\<close>.
\<close>

theorem scenario_D_half_width:
  "extract_top_peaks [Finite 0, Finite 1, Finite 2] [Finite 1, Finite 2, Finite 1]
       5 Mode_auto 7 (1 / 100)
     = Inr [\<lparr>kind = Kind_max, left = 1 / 2, center = 1, right = 3 / 2, prominence = 1\<rparr>]"
  by code_simp

theorem scenario_D_half_width_witness:
  "length [Finite 0, Finite 1, Finite 2] = length [Finite 1, Finite 2, Finite 1]
   \<and> 3 \<le> length [Finite 0, Finite 1, Finite 2]
   \<and> map left (projr (extract_top_peaks [Finite 0, Finite 1, Finite 2]
          [Finite 1, Finite 2, Finite 1] 5 Mode_auto 7 (1 / 100))) = [1 / 2]
   \<and> map right (projr (extract_top_peaks [Finite 0, Finite 1, Finite 2]
          [Finite 1, Finite 2, Finite 1] 5 Mode_auto 7 (1 / 100))) = [3 / 2]"
  using scenario_D_half_width by simp

text \<open>
  The result with both bounds equal to \<open>x[1] = 1\<close> is not what the call returns.
\<close>

theorem scenario_D_not_degenerate:
  "extract_top_peaks [Finite 0, Finite 1, Finite 2] [Finite 1, Finite 2, Finite 1]
       5 Mode_auto 7 (1 / 100)
     \<noteq> Inr [\<lparr>kind = Kind_max, left = 1, center = 1, right = 1, prominence = 1\<rparr>]"
  by code_simp

subsection \<open>Negative smoothing window\<close>

text \<open>
  Claim C2, as the code has it. A negative \<open>smooth_window\<close> raises nothing: \<open>_smooth\<close>
  returns its input for every \<open>window \<le> 1\<close>, so the call returns a peak list, the one
  that \<open>smooth_window = 1\<close> (no smoothing) returns, for every input.
\<close>

theorem negative_window_is_no_smoothing:
  assumes "smooth_window < 0"
  shows "(\<exists>ps. extract_top_peaks x y top_n md smooth_window min_prominence_ratio = Inr ps)
       \<and> extract_top_peaks x y top_n md smooth_window min_prominence_ratio
           = extract_top_peaks x y top_n md 1 min_prominence_ratio"
proof
  show "\<exists>ps. extract_top_peaks x y top_n md smooth_window min_prominence_ratio = Inr ps"
    using extract_top_peaks_result[of x y top_n md smooth_window min_prominence_ratio]
    by blast
  show "extract_top_peaks x y top_n md smooth_window min_prominence_ratio
           = extract_top_peaks x y top_n md 1 min_prominence_ratio"
    using assms by (intro extract_top_peaks_no_window) simp
qed

theorem negative_window_is_no_smoothing_witness:
  "(- 1 :: int) < 0
   \<and> extract_top_peaks [Finite 0, Finite 1, Finite 2] [Finite 1, Finite 2, Finite 1]
        5 Mode_auto (- 1) (1 / 100)
     = extract_top_peaks [Finite 0, Finite 1, Finite 2] [Finite 1, Finite 2, Finite 1]
        5 Mode_auto 1 (1 / 100)"
  using negative_window_is_no_smoothing
    [of "- 1" "[Finite 0, Finite 1, Finite 2]" "[Finite 1, Finite 2, Finite 1]" 5 Mode_auto
        "1 / 100"]
  by simp

text \<open>
  With \<open>smooth_window = -1\<close> the call on scenario D returns a peak, not an error.
\<close>

theorem negative_window_returns:
  "extract_top_peaks [Finite 0, Finite 1, Finite 2] [Finite 1, Finite 2, Finite 1]
       5 Mode_auto (- 1) (1 / 100)
     = Inr [\<lparr>kind = Kind_max, left = 1 / 2, center = 1, right = 3 / 2, prominence = 1\<rparr>]"
  by code_simp

subsection \<open>Flat signals\<close>

text \<open>
  Claim C3 at a flat signal. Seven samples, all \<open>1\<close>, with the default parameters: the
  zero-padded convolution of \<open>_smooth\<close> lowers the samples near both ends, the smoothed
  signal is \<open>4/7, 5/7, 6/7, 1, 6/7, 5/7, 4/7\<close>, and the call returns a peak at the
  centre although the input has no variance. (That the call never raises, drops
  non-finite pairs and returns the empty list for mismatched lengths or fewer than three
  valid pairs is \<open>extract_top_peaks_result\<close> and \<open>extract_top_peaks_early\<close> above.)
\<close>

theorem flat_signal_spurious_peak:
  "extract_top_peaks
       [Finite 0, Finite 1, Finite 2, Finite 3, Finite 4, Finite 5, Finite 6]
       [Finite 1, Finite 1, Finite 1, Finite 1, Finite 1, Finite 1, Finite 1]
       5 Mode_auto 7 (1 / 100)
     = Inr [\<lparr>kind = Kind_max, left = 3 / 2, center = 3, right = 9 / 2, prominence = 3 / 7\<rparr>]"
  by code_simp

theorem flat_signal_spurious_peak_witness:
  "smooth [1, 1, 1, 1, 1, 1, 1] 7 = Inr [4 / 7, 5 / 7, 6 / 7, 1, 6 / 7, 5 / 7, 4 / 7]
   \<and> extract_top_peaks
       [Finite 0, Finite 1, Finite 2, Finite 3, Finite 4, Finite 5, Finite 6]
       [Finite 1, Finite 1, Finite 1, Finite 1, Finite 1, Finite 1, Finite 1]
       5 Mode_auto 7 (1 / 100) \<noteq> Inr []"
proof -
  have "smooth [1, 1, 1, 1, 1, 1, 1] 7 = Inr [4 / 7, 5 / 7, 6 / 7, 1, 6 / 7, 5 / 7, 4 / 7]"
    by code_simp
  then show ?thesis using flat_signal_spurious_peak by simp
qed

subsection \<open>Polarity\<close>



text \<open>
  Claim C5. Mode \<open>min\<close> on \<open>(x, y)\<close> returns the sequence that mode \<open>max\<close> returns
  on \<open>(x, -y)\<close>, whose records all have kind \<open>max\<close>, with the kind of every record
  set to \<open>min\<close> and every other field unchanged.
\<close>

theorem min_mode_is_max_mode_on_negated_signal:
  "\<exists>ps. extract_top_peaks x (map fneg y) top_n Mode_max smooth_window min_prominence_ratio
          = Inr ps
        \<and> (\<forall>p \<in> set ps. kind p = Kind_max)
        \<and> extract_top_peaks x y top_n Mode_min smooth_window min_prominence_ratio
          = Inr (map (\<lambda>p. p\<lparr>kind := Kind_min\<rparr>) ps)"
proof -
  obtain ps where ps:
    "extract_top_peaks x (map fneg y) top_n Mode_max smooth_window min_prominence_ratio = Inr ps"
    "\<forall>p \<in> set ps. kind p = Kind_max"
    using extract_top_peaks_result
      [of x "map fneg y" top_n Mode_max smooth_window min_prominence_ratio]
    by auto
  have "extract_top_peaks x y top_n Mode_min smooth_window min_prominence_ratio
          = Inr (map (\<lambda>p. p\<lparr>kind := Kind_min\<rparr>) ps)"
    using extract_top_peaks_polarity[of x y top_n smooth_window min_prominence_ratio] ps(1)
    by simp
  with ps show ?thesis by blast
qed

theorem min_mode_is_max_mode_on_negated_signal_witness:
  "extract_top_peaks [Finite 0, Finite 1, Finite 2] [Finite 2, Finite 1, Finite 2]
       5 Mode_min 7 (1 / 100)
     = Inr [\<lparr>kind = Kind_min, left = 1 / 2, center = 1, right = 3 / 2, prominence = 1\<rparr>]"
proof -
  let ?x = "[Finite 0, Finite 1, Finite 2]" and ?y = "[Finite 2, Finite 1, Finite 2]"
  let ?p = "\<lparr>kind = Kind_max, left = 1 / 2, center = 1, right = 3 / 2, prominence = 1\<rparr>"
  have mx: "extract_top_peaks ?x (map fneg ?y) 5 Mode_max 7 (1 / 100) = Inr [?p]"
    by code_simp
  from min_mode_is_max_mode_on_negated_signal[of ?x ?y 5 7 "1 / 100"] mx
  show ?thesis by simp
qed

subsection \<open>Ranking, selection and the returned records\<close>

text \<open>
  Claim C6. \<open>_extract_peaks_from_signal\<close> returns the first \<open>top_n\<close> entries of the
  ranked candidates: the candidates are the kept candidates of the peak indices of the
  smoothed signal, one after the other in ascending index order, each keyed by its
  prominence; the ranked list is a permutation of them, descending in the key and stable
  (candidates of equal prominence keep their order of insertion). Every result of
  \<open>extract_top_peaks\<close>, whatever the totals of the \<open>auto\<close> branch round to, is such a
  result; so its length is at most \<open>top_n\<close> (for
  \<open>top_n \<ge> 0\<close>), its prominences do not increase, and it is empty when
  \<open>top_n \<le> 0\<close> or fewer than three valid samples remain.
\<close>

theorem ranker_selector:
  "(length x = length s \<longrightarrow>
      (\<exists>ss cands srt.
           smooth s smooth_window = Inr ss
         \<and> sorted_wrt (<) (local_maxima_indices ss)
         \<and> (let global_span = (if ss \<noteq> [] then Max (set ss) - Min (set ss) else 0);
                 min_prominence =
                   (if global_span > 0 then global_span * min_prominence_ratio else 0)
             in cands = List.map_filter
                          (\<lambda>i. case peak_candidate x ss min_prominence knd i of
                                  Inl e \<Rightarrow> None | Inr c \<Rightarrow> c)
                          (local_maxima_indices ss))
         \<and> (\<forall>t \<in> set cands. fst t = prominence (snd t))
         \<and> mset srt = mset cands
         \<and> sorted_wrt (\<lambda>a b. fst b \<le> fst a) srt
         \<and> (\<forall>k. filter (\<lambda>t. fst t = k) srt = filter (\<lambda>t. fst t = k) cands)
         \<and> extract_peaks_from_signal x s top_n smooth_window min_prominence_ratio knd
             = Inr (map snd (take (nat top_n) srt))))
   \<and> (\<exists>ps xa ya knd'.
           extract_top_peaks_scored float_sum xf yf top_n md smooth_window
             min_prominence_ratio = Inr ps
         \<and> length xa = length ya
         \<and> extract_peaks_from_signal xa ya top_n smooth_window min_prominence_ratio knd'
             = Inr ps
         \<and> (0 \<le> top_n \<longrightarrow> int (length ps) \<le> top_n)
         \<and> sorted_wrt (\<lambda>a b. prominence b \<le> prominence a) ps
         \<and> (top_n \<le> 0 \<longrightarrow> ps = [])
         \<and> (length (filter (\<lambda>(a, b). isfinite a \<and> isfinite b) (zip xf yf)) < 3
              \<longrightarrow> ps = []))"
proof (intro conjI impI)
  assume "length x = length s"
  then show "\<exists>ss cands srt.
           smooth s smooth_window = Inr ss
         \<and> sorted_wrt (<) (local_maxima_indices ss)
         \<and> (let global_span = (if ss \<noteq> [] then Max (set ss) - Min (set ss) else 0);
                 min_prominence =
                   (if global_span > 0 then global_span * min_prominence_ratio else 0)
             in cands = List.map_filter
                          (\<lambda>i. case peak_candidate x ss min_prominence knd i of
                                  Inl e \<Rightarrow> None | Inr c \<Rightarrow> c)
                          (local_maxima_indices ss))
         \<and> (\<forall>t \<in> set cands. fst t = prominence (snd t))
         \<and> mset srt = mset cands
         \<and> sorted_wrt (\<lambda>a b. fst b \<le> fst a) srt
         \<and> (\<forall>k. filter (\<lambda>t. fst t = k) srt = filter (\<lambda>t. fst t = k) cands)
         \<and> extract_peaks_from_signal x s top_n smooth_window min_prominence_ratio knd
             = Inr (map snd (take (nat top_n) srt))"
    by (rule extract_peaks_from_signal_ranked)
next
  obtain md' where md':
      "extract_top_peaks_scored float_sum xf yf top_n md smooth_window min_prominence_ratio
         = extract_top_peaks xf yf top_n md' smooth_window min_prominence_ratio"
    using extract_top_peaks_scored_choice by blast
  obtain ps where ps:
      "extract_top_peaks xf yf top_n md' smooth_window min_prominence_ratio = Inr ps"
      "length ps \<le> nat (max 0 top_n)"
      "sorted_wrt (\<lambda>a b. prominence b \<le> prominence a) ps"
      "top_n \<le> 0 \<longrightarrow> ps = []"
    using extract_top_peaks_result[of xf yf top_n md' smooth_window min_prominence_ratio]
    by blast
  obtain xa ya knd' where sig: "length xa = length ya"
      "extract_top_peaks xf yf top_n md' smooth_window min_prominence_ratio
         = extract_peaks_from_signal xa ya top_n smooth_window min_prominence_ratio knd'"
    using extract_top_peaks_from_signal by blast
  have len: "0 \<le> top_n \<longrightarrow> int (length ps) \<le> top_n"
    using ps(2) by auto
  have few: "length (filter (\<lambda>(a, b). isfinite a \<and> isfinite b) (zip xf yf)) < 3 \<longrightarrow> ps = []"
    using extract_top_peaks_early[of xf yf top_n md' smooth_window min_prominence_ratio] ps(1)
    by auto
  from md' ps(1,3,4) sig len few
  show "\<exists>ps xa ya knd'.
           extract_top_peaks_scored float_sum xf yf top_n md smooth_window
             min_prominence_ratio = Inr ps
         \<and> length xa = length ya
         \<and> extract_peaks_from_signal xa ya top_n smooth_window min_prominence_ratio knd'
             = Inr ps
         \<and> (0 \<le> top_n \<longrightarrow> int (length ps) \<le> top_n)
         \<and> sorted_wrt (\<lambda>a b. prominence b \<le> prominence a) ps
         \<and> (top_n \<le> 0 \<longrightarrow> ps = [])
         \<and> (length (filter (\<lambda>(a, b). isfinite a \<and> isfinite b) (zip xf yf)) < 3
              \<longrightarrow> ps = [])"
    by (intro exI[of _ ps] exI[of _ xa] exI[of _ ya] exI[of _ knd']) simp
qed

theorem ranker_selector_witness:
  "length [0, 1, 2, 3, 4, 5, 6 :: real] = length [0, 1, 0, 2, 0, 1, 0 :: real]
   \<and> (\<exists>srt. mset srt = mset
          [(1 :: real, \<lparr>kind = Kind_max, left = 1 / 2, center = 1, right = 3 / 2, prominence = 1\<rparr>),
           (2, \<lparr>kind = Kind_max, left = 5 / 2, center = 3, right = 7 / 2, prominence = 2\<rparr>),
           (1, \<lparr>kind = Kind_max, left = 9 / 2, center = 5, right = 11 / 2, prominence = 1\<rparr>)]
        \<and> sorted_wrt (\<lambda>a b. fst b \<le> fst a) srt
        \<and> (\<forall>k. filter (\<lambda>t. fst t = k) srt = filter (\<lambda>t. fst t = k)
          [(1 :: real, \<lparr>kind = Kind_max, left = 1 / 2, center = 1, right = 3 / 2, prominence = 1\<rparr>),
           (2, \<lparr>kind = Kind_max, left = 5 / 2, center = 3, right = 7 / 2, prominence = 2\<rparr>),
           (1, \<lparr>kind = Kind_max, left = 9 / 2, center = 5, right = 11 / 2, prominence = 1\<rparr>)])
        \<and> extract_peaks_from_signal [0, 1, 2, 3, 4, 5, 6] [0, 1, 0, 2, 0, 1, 0] 2 1 (1 / 100)
             Kind_max = Inr (map snd (take (nat 2) srt)))
   \<and> extract_peaks_from_signal [0, 1, 2, 3, 4, 5, 6] [0, 1, 0, 2, 0, 1, 0] 2 1 (1 / 100) Kind_max
       = Inr [\<lparr>kind = Kind_max, left = 5 / 2, center = 3, right = 7 / 2, prominence = 2\<rparr>,
              \<lparr>kind = Kind_max, left = 1 / 2, center = 1, right = 3 / 2, prominence = 1\<rparr>]
   \<and> extract_top_peaks_scored (\<lambda>vs. Finite (sum_list vs))
         [Finite 0, Finite 1, Finite 2, Finite 3, Finite 4, Finite 5, Finite 6]
         [Finite 0, Finite 1, Finite 0, Finite 2, Finite 0, Finite 1, Finite 0]
         2 Mode_max 1 (1 / 100)
       = Inr [\<lparr>kind = Kind_max, left = 5 / 2, center = 3, right = 7 / 2, prominence = 2\<rparr>,
              \<lparr>kind = Kind_max, left = 1 / 2, center = 1, right = 3 / 2, prominence = 1\<rparr>]
   \<and> (0 :: int) \<le> 2
   \<and> int (length
         [\<lparr>kind = Kind_max, left = 5 / 2, center = 3, right = 7 / 2, prominence = 2\<rparr>,
          \<lparr>kind = Kind_max, left = 1 / 2, center = 1, right = 3 / 2, prominence = 1\<rparr>]) \<le> 2"
proof -
  let ?X = "[0, 1, 2, 3, 4, 5, 6] :: real list"
  let ?S = "[0, 1, 0, 2, 0, 1, 0] :: real list"
  let ?XF = "[Finite 0, Finite 1, Finite 2, Finite 3, Finite 4, Finite 5, Finite 6]"
  let ?YF = "[Finite 0, Finite 1, Finite 0, Finite 2, Finite 0, Finite 1, Finite 0]"
  let ?p1 = "\<lparr>kind = Kind_max, left = 1 / 2, center = 1, right = 3 / 2, prominence = 1\<rparr>"
  let ?p3 = "\<lparr>kind = Kind_max, left = 5 / 2, center = 3, right = 7 / 2, prominence = 2\<rparr>"
  let ?p5 = "\<lparr>kind = Kind_max, left = 9 / 2, center = 5, right = 11 / 2, prominence = 1\<rparr>"
  let ?C = "[(1 :: real, ?p1), (2, ?p3), (1, ?p5)]"
  note inst = ranker_selector[where x = ?X and s = ?S and smooth_window = 1
      and min_prominence_ratio = "1 / 100" and knd = Kind_max and top_n = 2
      and xf = ?XF and yf = ?YF and md = Mode_max
      and float_sum = "\<lambda>vs. Finite (sum_list vs)"]
  have e1: "extract_peaks_from_signal ?X ?S 2 1 (1 / 100) Kind_max = Inr [?p3, ?p1]"
    by code_simp
  have e2: "extract_top_peaks_scored (\<lambda>vs. Finite (sum_list vs)) ?XF ?YF 2 Mode_max 1
              (1 / 100) = Inr [?p3, ?p1]"
    by code_simp
  have sm: "smooth ?S 1 = Inr ?S"
    by (simp add: smooth_def)
  have cd: "List.map_filter
              (\<lambda>i. case peak_candidate ?X ?S
                           (if (if ?S \<noteq> [] then Max (set ?S) - Min (set ?S) else 0) > 0
                            then (if ?S \<noteq> [] then Max (set ?S) - Min (set ?S) else 0) * (1 / 100)
                            else 0) Kind_max i of
                      Inl e \<Rightarrow> None | Inr c \<Rightarrow> c)
              (local_maxima_indices ?S) = ?C"
    by code_simp
  from inst obtain ss cands srt where r:
      "smooth ?S 1 = Inr ss"
      "(let global_span = (if ss \<noteq> [] then Max (set ss) - Min (set ss) else 0);
            min_prominence = (if global_span > 0 then global_span * (1 / 100) else 0)
        in cands = List.map_filter
                     (\<lambda>i. case peak_candidate ?X ss min_prominence Kind_max i of
                             Inl e \<Rightarrow> None | Inr c \<Rightarrow> c)
                     (local_maxima_indices ss))"
      "mset srt = mset cands"
      "sorted_wrt (\<lambda>a b. fst b \<le> fst a) srt"
      "\<forall>k. filter (\<lambda>t. fst t = k) srt = filter (\<lambda>t. fst t = k) cands"
      "extract_peaks_from_signal ?X ?S 2 1 (1 / 100) Kind_max
         = Inr (map snd (take (nat 2) srt))"
    by auto
  from r(1) sm have "ss = ?S" by simp
  with r(2) cd have "cands = ?C" unfolding Let_def by simp
  with r(3-6) have first: "\<exists>srt. mset srt = mset ?C
        \<and> sorted_wrt (\<lambda>a b. fst b \<le> fst a) srt
        \<and> (\<forall>k. filter (\<lambda>t. fst t = k) srt = filter (\<lambda>t. fst t = k) ?C)
        \<and> extract_peaks_from_signal ?X ?S 2 1 (1 / 100) Kind_max
             = Inr (map snd (take (nat 2) srt))"
    by blast
  from inst e2 have "int (length [?p3, ?p1]) \<le> 2" by auto
  with first e1 e2 show ?thesis by simp
qed

end
